theory Spec2Isabelle
  imports Main
begin

section \<open>Native field values and failures\<close>

text \<open>
  A native field element (\<^verbatim>\<open>Field\<close>, \<^verbatim>\<open>FieldBn254\<close>) is either a constant or a
  variable of the circuit; in proving mode a variable carries the value witnessed for it.
  The order \<open>p\<close> of the native field is a constant of the bindings and not part of the
  sources, so every gadget below takes it as its first argument. Arithmetic on field
  elements reduces modulo \<open>p\<close>; the result of an operation is a constant only when
  all operands are.
\<close>

datatype field = Constant nat | Variable nat

fun toBigInt :: "field \<Rightarrow> nat" where
  "toBigInt (Constant v) = v"
| "toBigInt (Variable v) = v"

fun isConstant :: "field \<Rightarrow> bool" where
  "isConstant (Constant v) = True"
| "isConstant (Variable v) = False"

text \<open>\<^verbatim>\<open>new Field(x)\<close> for a bigint \<open>x\<close>: a constant, reduced modulo \<open>p\<close>.\<close>

definition newField :: "nat \<Rightarrow> nat \<Rightarrow> field" where
  "newField p x = Constant (x mod p)"

text \<open>\<^verbatim>\<open>Provable.witness(Field, () => new Field(x))\<close>: a fresh variable holding \<open>x\<close>.\<close>

definition witnessField :: "nat \<Rightarrow> nat \<Rightarrow> field" where
  "witnessField p x = Variable (x mod p)"

definition fieldOp :: "field \<Rightarrow> field \<Rightarrow> nat \<Rightarrow> field" where
  "fieldOp x y v = (if isConstant x \<and> isConstant y then Constant v else Variable v)"

definition fieldAdd :: "nat \<Rightarrow> field \<Rightarrow> field \<Rightarrow> field" where
  "fieldAdd p x y = fieldOp x y ((toBigInt x + toBigInt y) mod p)"

definition fieldMul :: "nat \<Rightarrow> field \<Rightarrow> field \<Rightarrow> field" where
  "fieldMul p x y = fieldOp x y ((toBigInt x * toBigInt y) mod p)"

text \<open>
  Every way a gadget can abort: a failed \<^verbatim>\<open>assert(...)\<close>, a failed
  \<^verbatim>\<open>assertEquals\<close>, a value that is not 0 or 1 under \<^verbatim>\<open>Bool.check\<close>, a range
  check on a value that is too large, a range check called with an unsupported width,
  reading a property of \<^verbatim>\<open>undefined\<close> (a JavaScript TypeError), and a loop that
  never ends.
\<close>

datatype error =
    AssertFailed
  | AssertEqualsFailed
  | NotBoolean
  | RangeViolation
  | BadBitLength
  | TypeError
  | Diverges

definition assertEquals :: "field \<Rightarrow> field \<Rightarrow> error + unit" where
  "assertEquals x y = (if toBigInt x = toBigInt y then Inr () else Inl AssertEqualsFailed)"

text \<open>Sequencing of checks: the first failure aborts the gadget.\<close>

definition andThen :: "error + unit \<Rightarrow> (error + 'a) \<Rightarrow> error + 'a" where
  "andThen r k = (case r of Inl e \<Rightarrow> Inl e | Inr u \<Rightarrow> k)"

text \<open>
  Modelled from the spec: \<^verbatim>\<open>Bool.check(Bool.Unsafe.ofField(x))\<close> lives in
  \<^verbatim>\<open>bool.ts\<close>, which is not among the sources. It constrains \<open>x\<close> to a single
  boolean bit and fails on any other value.
\<close>

definition boolCheck :: "field \<Rightarrow> error + unit" where
  "boolCheck x = (if toBigInt x = 0 \<or> toBigInt x = 1 then Inr () else Inl NotBoolean)"

section \<open>Range-check primitives\<close>

text \<open>
  Modelled from the spec: \<^verbatim>\<open>range-check.ts\<close> (\<^verbatim>\<open>rangeCheck32\<close>, \<^verbatim>\<open>rangeCheckN\<close>) is not
  among the sources; only the wrappers with their doc comments are. Section 4.1 of the
  spec: a range check of width \<open>n\<close> asserts \<open>0 \<le> x < 2^n\<close> for the canonical
  nonnegative representative of \<open>x\<close> and raises a range violation otherwise. The
  general \<open>n\<close>-bit check (\<open>n\<close> must be a multiple of 16) decomposes \<open>n\<close> into
  16-bit segments, witnessed from the value, chains one primitive 16-bit check per
  segment and accumulates a running weighted sum (in the native field) that must equal
  \<open>x\<close>. On a constant the check is the plain comparison. What the function does for
  the width 0, or for a width above the size of the field, is not described and not
  modelled; the properties below use the width 32 only.
\<close>

text \<open>The 16-bit segments of a value, least significant first.\<close>

definition segments16 :: "nat \<Rightarrow> nat \<Rightarrow> nat list" where
  "segments16 n v = map (\<lambda>i. (v div 2 ^ (16 * i)) mod 2 ^ 16) [0..<n div 16]"

text \<open>
  The chain: segment \<open>i\<close> is checked to 16 bits and added with weight \<open>2^(16 i)\<close>
  to the running sum, a native field element.
\<close>

fun chain16 :: "nat \<Rightarrow> nat \<Rightarrow> nat \<Rightarrow> nat list \<Rightarrow> error + nat" where
  "chain16 p i acc [] = Inr acc"
| "chain16 p i acc (s # ss) =
     (if s < 2 ^ 16 then chain16 p (Suc i) ((acc + s * (2 ^ (16 * i) mod p)) mod p) ss
      else Inl RangeViolation)"

definition rangeCheckN :: "nat \<Rightarrow> nat \<Rightarrow> field \<Rightarrow> error + unit" where
  "rangeCheckN p n x =
     (if n mod 16 \<noteq> 0 then Inl BadBitLength
      else if isConstant x then
        (if toBigInt x < 2 ^ n then Inr () else Inl RangeViolation)
      else
        (case chain16 p 0 0 (segments16 n (toBigInt x)) of
           Inl e \<Rightarrow> Inl e
         | Inr weighted \<Rightarrow>
             if weighted = toBigInt x then Inr () else Inl RangeViolation))"

definition rangeCheck32 :: "nat \<Rightarrow> field \<Rightarrow> error + unit" where
  "rangeCheck32 p x = rangeCheckN p 32 x"

section \<open>Division and addition modulo \<open>2^32\<close> (\<^verbatim>\<open>arithmetic.ts\<close>)\<close>

record divmod =
  remainder :: field
  quotient :: field

text \<open>
  \<^verbatim>\<open>divMod32(n, quotientBits = 32)\<close>. On a constant the quotient and remainder are
  computed directly after \<^verbatim>\<open>assert(n.toBigInt() < 1n << 64n)\<close>; on a variable they are
  witnessed, range checked and tied to \<open>n\<close> by \<^verbatim>\<open>assertEquals\<close>.
\<close>

definition divMod32 :: "nat \<Rightarrow> field \<Rightarrow> nat \<Rightarrow> error + divmod" where
  "divMod32 p n quotientBits =
     (if isConstant n then
        (if toBigInt n < 2 ^ 64 then
           (let nBigInt = toBigInt n;
                q = nBigInt div 2 ^ 32;
                r = nBigInt - q * 2 ^ 32
            in Inr \<lparr>remainder = newField p r, quotient = newField p q\<rparr>)
         else Inl AssertFailed)
      else
        (let nBigInt = toBigInt n;
             q = nBigInt div 2 ^ 32;
             r = nBigInt - q * 2 ^ 32;
             quot = witnessField p q;
             rem = witnessField p r
         in andThen (if quotientBits = 1 then boolCheck quot
                     else rangeCheckN p quotientBits quot)
           (andThen (rangeCheck32 p rem)
           (andThen (assertEquals n
                       (fieldAdd p (fieldMul p quot (newField p (2 ^ 32))) rem))
              (Inr \<lparr>remainder = rem, quotient = quot\<rparr>)))))"

text \<open>\<^verbatim>\<open>addMod32(x, y) = divMod32(x.add(y), 1).remainder\<close>.\<close>

definition addMod32 :: "nat \<Rightarrow> field \<Rightarrow> field \<Rightarrow> error + field" where
  "addMod32 p x y =
     (case divMod32 p (fieldAdd p x y) 1 of
        Inl e \<Rightarrow> Inl e
      | Inr d \<Rightarrow> Inr (remainder d))"

section \<open>Bytes and words (\<^verbatim>\<open>bit-slices-bn254.ts\<close>)\<close>

text \<open>
  No gadget of \<^verbatim>\<open>bit-slices-bn254.ts\<close> asks whether a field element is a constant,
  so here a \<^verbatim>\<open>FieldBn254\<close> is modelled by its canonical value, a natural number below
  \<open>p\<close>, and a \<^verbatim>\<open>UInt8\<close> by the value of its field \<^verbatim>\<open>value\<close>.

  \<^verbatim>\<open>bytesToWord\<close> is a \<^verbatim>\<open>reduce\<close> with the index: the accumulator starts at
  \<^verbatim>\<open>FieldBn254.from(0)\<close> and byte \<open>idx\<close> is added with the shift \<^verbatim>\<open>1n << BigInt(8 * idx)\<close>,
  all in the native field.
\<close>

fun bytesToWordFrom :: "nat \<Rightarrow> nat \<Rightarrow> nat \<Rightarrow> nat list \<Rightarrow> nat" where
  "bytesToWordFrom p idx acc [] = acc"
| "bytesToWordFrom p idx acc (byte # rest) =
     bytesToWordFrom p (Suc idx) ((acc + (byte * (2 ^ (8 * idx) mod p)) mod p) mod p) rest"

definition bytesToWord :: "nat \<Rightarrow> nat list \<Rightarrow> nat" where
  "bytesToWord p wordBytes = bytesToWordFrom p 0 0 wordBytes"

text \<open>
  \<^verbatim>\<open>wordToBytes(word, bytesPerWord)\<close> witnesses byte \<open>k\<close> as
  \<^verbatim>\<open>(w >> BigInt(8 * k)) & 0xffn\<close> (always a valid \<^verbatim>\<open>UInt8\<close>) and then asserts
  \<^verbatim>\<open>bytesToWord(bytes).assertEquals(word)\<close>.
\<close>

definition wordToBytes :: "nat \<Rightarrow> nat \<Rightarrow> nat \<Rightarrow> error + nat list" where
  "wordToBytes p word bytesPerWord =
     (let w = word;
          bytes = map (\<lambda>k. (w div 2 ^ (8 * k)) mod 256) [0..<bytesPerWord]
      in if bytesToWord p bytes = word then Inr bytes else Inl AssertEqualsFailed)"

section \<open>Bit slices of a field element and of three limbs\<close>

text \<open>
  \<^verbatim>\<open>bigIntToBits\<close> comes from the bindings: the binary digits of a bigint, least
  significant first, without leading zeros.
\<close>

fun bigIntToBits :: "nat \<Rightarrow> bool list" where
  "bigIntToBits x = (if x = 0 then [] else odd x # bigIntToBits (x div 2))"

declare bigIntToBits.simps [simp del]

text \<open>
  The witness of \<^verbatim>\<open>sliceField\<close>: the bits of \<open>x\<close>, cut or padded with \<^verbatim>\<open>false\<close> to
  exactly \<open>maxBits\<close> entries, then mapped with \<^verbatim>\<open>BigInt\<close>.
\<close>

definition witnessBits :: "nat \<Rightarrow> nat \<Rightarrow> nat list" where
  "witnessBits x maxBits =
     (let bits = bigIntToBits x;
          bits = (if length bits > maxBits then take maxBits bits else bits);
          bits = (if length bits < maxBits
                  then bits @ replicate (maxBits - length bits) False else bits)
      in map (\<lambda>b. if b then 1 else 0) bits)"

text \<open>
  The inner loops \<^verbatim>\<open>for (let j = 0; j < size; j++)\<close>: bit \<^verbatim>\<open>bits[offset + j]\<close> is
  checked to be boolean and added with weight \<open>2^j\<close>. Reading past the end of
  \<^verbatim>\<open>bits\<close> gives \<^verbatim>\<open>undefined\<close>, and the call \<^verbatim>\<open>bit.mul(...)\<close> on it throws.
  The fourth argument is \<open>j\<close>, the fifth the number of rounds left.
\<close>

fun bitsToChunk :: "nat \<Rightarrow> nat list \<Rightarrow> nat \<Rightarrow> nat \<Rightarrow> nat \<Rightarrow> nat \<Rightarrow> error + nat" where
  "bitsToChunk p bits offset j 0 acc = Inr acc"
| "bitsToChunk p bits offset j (Suc n) acc =
     (if offset + j < length bits then
        (let bit = bits ! (offset + j)
         in if bit = 0 \<or> bit = 1
            then bitsToChunk p bits offset (Suc j) n ((acc + (bit * (2 ^ j mod p)) mod p) mod p)
            else Inl NotBoolean)
      else Inl TypeError)"

text \<open>
  The outer loop \<^verbatim>\<open>for (; i < maxBits; i += chunkSize)\<close> with its state \<open>i\<close>,
  \<open>sum\<close> (here \<open>total_sum\<close>, as \<open>sum\<close> is taken) and \<open>chunks\<close>. With \<open>chunkSize = 0\<close> the loop never advances; that run
  is the outcome \<open>Diverges\<close>.
\<close>

function sliceLoop ::
  "nat \<Rightarrow> nat list \<Rightarrow> nat \<Rightarrow> nat \<Rightarrow> nat \<Rightarrow> nat \<Rightarrow> nat list \<Rightarrow> error + (nat \<times> nat \<times> nat list)" where
  "sliceLoop p bits maxBits chunkSize i total_sum chunks =
     (if i < maxBits then
        (if chunkSize = 0 then Inl Diverges
         else
           (let size = min (maxBits - i) chunkSize
            in case bitsToChunk p bits i 0 size 0 of
                 Inl e \<Rightarrow> Inl e
               | Inr chunk \<Rightarrow>
                   sliceLoop p bits maxBits chunkSize (i + chunkSize)
                     ((total_sum + (chunk * (2 ^ i mod p)) mod p) mod p) (chunks @ [chunk])))
      else Inr (i, total_sum, chunks))"
  by pat_completeness auto
termination
  by (relation "measure (\<lambda>(p, bits, maxBits, chunkSize, i, s, chunks). maxBits - i)") auto

declare sliceLoop.simps [simp del]

record sliceResult =
  chunks :: "nat list"
  leftoverSize :: nat

text \<open>
  \<^verbatim>\<open>1n << BigInt(k)\<close> for a JavaScript number \<open>k = chunkSize - size\<close>, which is
  negative when \<open>size\<close> exceeds \<open>chunkSize\<close>: a negative shift of \<^verbatim>\<open>1n\<close> is \<^verbatim>\<open>0n\<close>.
\<close>

definition shiftOne :: "nat \<Rightarrow> nat \<Rightarrow> nat" where
  "shiftOne chunkSize size0 = (if size0 \<le> chunkSize then 2 ^ (chunkSize - size0) else 0)"

text \<open>
  \<^verbatim>\<open>sliceField(x, maxBits, chunkSize, leftover?)\<close>. The optional \<open>leftover\<close> is the
  result of the previous call; its array \<^verbatim>\<open>chunks\<close> is updated in place (the last
  chunk is completed), so the model returns that array, as it is after the call,
  beside the result. Without a leftover it is returned empty. Indexing an empty
  \<^verbatim>\<open>previous\<close> at \<open>-1\<close> gives \<^verbatim>\<open>undefined\<close>, and \<^verbatim>\<open>chunk.add\<close> throws.
\<close>

definition sliceField ::
  "nat \<Rightarrow> nat \<Rightarrow> nat \<Rightarrow> nat \<Rightarrow> (nat list \<times> nat) option \<Rightarrow> error + (nat list \<times> sliceResult)" where
  "sliceField p x maxBits chunkSize leftover =
     (let bits = witnessBits x maxBits
      in case leftover of
           None \<Rightarrow>
             (case sliceLoop p bits maxBits chunkSize 0 0 [] of
                Inl e \<Rightarrow> Inl e
              | Inr (i, total_sum, cs) \<Rightarrow>
                  if total_sum = x
                  then Inr ([], \<lparr>chunks = cs, leftoverSize = i - maxBits\<rparr>)
                  else Inl AssertEqualsFailed)
         | Some (previous, size0) \<Rightarrow>
             (case bitsToChunk p bits 0 0 size0 0 of
                Inl e \<Rightarrow> Inl e
              | Inr remainingChunk \<Rightarrow>
                  if previous = [] then Inl TypeError
                  else
                    (let chunk = last previous;
                         previous' = previous[length previous - 1 :=
                           (chunk + (remainingChunk * (shiftOne chunkSize size0 mod p)) mod p) mod p]
                     in case sliceLoop p bits maxBits chunkSize size0 remainingChunk [] of
                          Inl e \<Rightarrow> Inl e
                        | Inr (i, total_sum, cs) \<Rightarrow>
                            if total_sum = x
                            then Inr (previous', \<lparr>chunks = cs, leftoverSize = i - maxBits\<rparr>)
                            else Inl AssertEqualsFailed)))"

text \<open>The limb size \<^verbatim>\<open>l = 88n\<close> of \<^verbatim>\<open>range-check-bn254.ts\<close>.\<close>

definition lBits :: nat where
  "lBits = 88"

text \<open>
  \<^verbatim>\<open>sliceField3([x0, x1, x2], {maxBits, chunkSize})\<close>. The second and third call
  complete the last chunk of the call before, so the arrays concatenated at the end are
  the updated ones.
\<close>

definition sliceField3 :: "nat \<Rightarrow> nat \<times> nat \<times> nat \<Rightarrow> nat \<Rightarrow> nat \<Rightarrow> error + nat list" where
  "sliceField3 p x maxBits chunkSize =
     (case x of (x0, x1, x2) \<Rightarrow>
        if \<not> maxBits \<le> 3 * lBits then Inl AssertFailed
        else
          (case sliceField p x0 (min lBits maxBits) chunkSize None of
             Inl e \<Rightarrow> Inl e
           | Inr (unused, result0) \<Rightarrow>
               if maxBits \<le> lBits then Inr (chunks result0)
               else
                 (let maxBits1 = maxBits - lBits
                  in case sliceField p x1 (min lBits maxBits1) chunkSize
                            (Some (chunks result0, leftoverSize result0)) of
                       Inl e \<Rightarrow> Inl e
                     | Inr (chunks0, result1) \<Rightarrow>
                         if maxBits1 \<le> lBits then Inr (chunks0 @ chunks result1)
                         else
                           (let maxBits2 = maxBits1 - lBits
                            in case sliceField p x2 maxBits2 chunkSize
                                      (Some (chunks result1, leftoverSize result1)) of
                                 Inl e \<Rightarrow> Inl e
                               | Inr (chunks1, result2) \<Rightarrow>
                                   Inr (chunks0 @ chunks1 @ chunks result2)))))"

text \<open>The value of three limbs: \<open>x0 + 2^88 x1 + 2^176 x2\<close>.\<close>

definition combine :: "nat \<times> nat \<times> nat \<Rightarrow> nat" where
  "combine x = (case x of (x0, x1, x2) \<Rightarrow> x0 + 2 ^ lBits * x1 + 2 ^ (2 * lBits) * x2)"

section \<open>Multi-range checks and the almost-reduced bound\<close>

text \<open>
  Modelled from the spec: \<^verbatim>\<open>multiRangeCheck\<close> and \<^verbatim>\<open>compactMultiRangeCheck\<close>
  (\<^verbatim>\<open>range-check-bn254.ts\<close>) are not among the sources; only their wrappers with doc
  comments and a test are. Section 4.1 of the spec: \<^verbatim>\<open>multiRangeCheck(x, y, z)\<close>
  proves that all three limbs are in \<open>[0, 2^88)\<close>;
  \<^verbatim>\<open>compactMultiRangeCheck(xy, z)\<close> accepts \<open>xy\<close> encoding two 88-bit values packed
  as \<open>x + 2^88 y\<close>, unpacks them, proves the packing identity \<open>xy = x + 2^88 y\<close>
  (in the native field), range-checks \<open>x\<close>, \<open>y\<close> and \<open>z\<close>, and returns the split
  limbs \<open>[x, y, z]\<close>. Limbs are modelled by their canonical values.
\<close>

definition multiRangeCheck :: "nat \<times> nat \<times> nat \<Rightarrow> error + unit" where
  "multiRangeCheck limbs =
     (case limbs of (x, y, z) \<Rightarrow>
        if x < 2 ^ lBits \<and> y < 2 ^ lBits \<and> z < 2 ^ lBits then Inr ()
        else Inl RangeViolation)"

definition compactMultiRangeCheck :: "nat \<Rightarrow> nat \<Rightarrow> nat \<Rightarrow> error + (nat \<times> nat \<times> nat)" where
  "compactMultiRangeCheck p xy z =
     (let x = xy mod 2 ^ lBits;
          y = xy div 2 ^ lBits
      in if (x + (y * (2 ^ lBits mod p)) mod p) mod p = xy
         then andThen (multiRangeCheck (x, y, z)) (Inr (x, y, z))
         else Inl AssertEqualsFailed)"




section \<open>Values used to state and to evaluate the properties\<close>

text \<open>
  The weighted sum of an ordered sequence of digits in base \<open>b\<close>, least significant
  first: \<open>d0 + b d1 + b^2 d2 + ...\<close>.
\<close>

fun weightedSum :: "nat \<Rightarrow> nat list \<Rightarrow> nat" where
  "weightedSum b [] = 0"
| "weightedSum b (d # ds) = d + b * weightedSum b ds"

text \<open>
  The closed evaluations below instantiate the order \<open>p\<close> with the order of the scalar
  field of the curve BN254, a 254-bit prime. They only depend on its size.
\<close>

definition bn254ScalarOrder :: nat where
  "bn254ScalarOrder =
     21888242871839275222246405745257275088548364400416034343698204186575808495617"

section \<open>Digits and weighted sums\<close>

lemma map_upt_Suc_shift: "map f [0..<Suc k] = f 0 # map (\<lambda>i. f (Suc i)) [0..<k]"
  by (simp add: map_upt_Suc del: upt_Suc)

lemma weightedSum_digits:
  "weightedSum (2 ^ w) (map (\<lambda>i. (v div 2 ^ (w * i)) mod 2 ^ w) [0..<k]) = v mod 2 ^ (w * k)"
proof (induction k arbitrary: v)
  case 0
  show ?case by simp
next
  case (Suc k)
  have shift: "(\<lambda>i. (v div 2 ^ (w * Suc i)) mod 2 ^ w) = (\<lambda>i. ((v div 2 ^ w) div 2 ^ (w * i)) mod 2 ^ w)"
    by (rule ext) (simp add: power_add div_mult2_eq)
  have "weightedSum (2 ^ w) (map (\<lambda>i. (v div 2 ^ (w * i)) mod 2 ^ w) [0..<Suc k])
      = v mod 2 ^ w + 2 ^ w * ((v div 2 ^ w) mod 2 ^ (w * k))"
    unfolding map_upt_Suc_shift shift using Suc.IH [of "v div 2 ^ w"] by simp
  also have "\<dots> = v mod 2 ^ (w * Suc k)"
    by (simp add: power_add mod_mult2_eq)
  finally show ?case .
qed

lemma wrap_iff:
  assumes "v < p" and "0 < (m::nat)"
  shows "((v mod m) mod p = v) = (v < m)"
proof (cases "v < m")
  case True
  with assms show ?thesis by simp
next
  case False
  have "v mod m < m" using assms(2) by simp
  moreover have "(v mod m) mod p \<le> v mod m" by (rule mod_less_eq_dividend)
  ultimately have "(v mod m) mod p < v" using False by linarith
  with False show ?thesis by simp
qed

lemma chain16_weightedSum:
  "acc < p \<Longrightarrow> \<forall>s\<in>set ss. s < 2 ^ 16 \<Longrightarrow>
   chain16 p i acc ss = Inr ((acc + 2 ^ (16 * i) * weightedSum (2 ^ 16) ss) mod p)"
proof (induction ss arbitrary: i acc)
  case Nil
  then show ?case by simp
next
  case (Cons s ss)
  from Cons.prems have p: "0 < p" by simp
  let ?acc = "(acc + s * (2 ^ (16 * i) mod p)) mod p"
  have "?acc < p" using p by simp
  then have "chain16 p (Suc i) ?acc ss = Inr ((?acc + 2 ^ (16 * Suc i) * weightedSum (2 ^ 16) ss) mod p)"
    using Cons.IH Cons.prems by simp
  moreover have "(?acc + 2 ^ (16 * Suc i) * weightedSum (2 ^ 16) ss) mod p
      = (acc + 2 ^ (16 * i) * (s + 2 ^ 16 * weightedSum (2 ^ 16) ss)) mod p"
  proof -
    have "(?acc + 2 ^ (16 * Suc i) * weightedSum (2 ^ 16) ss) mod p
        = ((acc + s * (2 ^ (16 * i) mod p)) + 2 ^ (16 * Suc i) * weightedSum (2 ^ 16) ss) mod p"
      by (simp add: mod_add_left_eq)
    also have "\<dots> = ((acc + 2 ^ (16 * Suc i) * weightedSum (2 ^ 16) ss) + s * (2 ^ (16 * i) mod p)) mod p"
      by (simp add: ac_simps)
    also have "\<dots> = ((acc + 2 ^ (16 * Suc i) * weightedSum (2 ^ 16) ss) + s * 2 ^ (16 * i)) mod p"
      by (metis mod_add_right_eq mod_mult_right_eq)
    also have "\<dots> = (acc + 2 ^ (16 * i) * (s + 2 ^ 16 * weightedSum (2 ^ 16) ss)) mod p"
      by (simp add: algebra_simps power_add)
    finally show ?thesis .
  qed
  ultimately show ?case using Cons.prems by simp
qed

lemma rangeCheckN_iff:
  assumes "n mod 16 = 0" and "toBigInt x < p"
  shows "rangeCheckN p n x = (if toBigInt x < 2 ^ n then Inr () else Inl RangeViolation)"
proof (cases "isConstant x")
  case True
  then show ?thesis using assms by (simp add: rangeCheckN_def)
next
  case False
  from assms have p: "0 < p" by simp
  have n: "16 * (n div 16) = n" using assms(1) by presburger
  have segs: "\<forall>s\<in>set (segments16 n (toBigInt x)). s < 2 ^ 16"
    by (simp add: segments16_def)
  have "chain16 p 0 0 (segments16 n (toBigInt x)) = Inr ((toBigInt x mod 2 ^ n) mod p)"
    using chain16_weightedSum [OF p segs, of 0] weightedSum_digits [of 16 "toBigInt x" "n div 16"] n
    by (simp add: segments16_def)
  then show ?thesis using False assms wrap_iff [OF assms(2), of "2 ^ n"]
    by (simp add: rangeCheckN_def)
qed


lemma divMod32_variable:
  assumes "\<not> isConstant n" and "toBigInt n < p" and "qb mod 16 = 0"
  shows "divMod32 p n qb =
    (if toBigInt n div 2 ^ 32 < 2 ^ qb
     then Inr \<lparr>remainder = Variable (toBigInt n mod 2 ^ 32), quotient = Variable (toBigInt n div 2 ^ 32)\<rparr>
     else Inl RangeViolation)"
proof -
  let ?v = "toBigInt n"
  let ?q = "?v div 2 ^ 32"
  let ?r = "?v - ?q * 2 ^ 32"
  have r: "?r = ?v mod 2 ^ 32" by (simp add: minus_div_mult_eq_mod)
  have qp: "?q < p" using assms(2) by (meson div_le_dividend le_less_trans)
  have rp: "?r < p" using assms(2) by simp
  have qb1: "qb \<noteq> 1" using assms(3) by auto
  have two: "(2::nat) ^ 32 mod p < p" using assms(2) by simp
  have sum: "(?q * (2 ^ 32 mod p) mod p + ?v mod 2 ^ 32) mod p = ?v"
  proof -
    have "(?q * (2 ^ 32 mod p) mod p + ?v mod 2 ^ 32) mod p = (?q * 2 ^ 32 + ?v mod 2 ^ 32) mod p"
      by (metis mod_add_left_eq mod_mult_right_eq)
    also have "\<dots> = ?v mod p" by simp
    finally show ?thesis using assms(2) by simp
  qed
  show ?thesis
    using assms qb1 qp rp r sum
    by (simp add: divMod32_def Let_def witnessField_def newField_def andThen_def
        rangeCheck32_def rangeCheckN_iff assertEquals_def fieldAdd_def fieldMul_def fieldOp_def)
qed


lemma divMod32_boolean:
  assumes "\<not> isConstant n" and "toBigInt n < p"
  shows "divMod32 p n 1 =
    (if toBigInt n < 2 ^ 33
     then Inr \<lparr>remainder = Variable (toBigInt n mod 2 ^ 32), quotient = Variable (toBigInt n div 2 ^ 32)\<rparr>
     else Inl NotBoolean)"
proof -
  let ?v = "toBigInt n"
  let ?q = "?v div 2 ^ 32"
  let ?r = "?v - ?q * 2 ^ 32"
  have r: "?r = ?v mod 2 ^ 32" by (simp add: minus_div_mult_eq_mod)
  have qp: "?q < p" using assms(2) by (meson div_le_dividend le_less_trans)
  have rp: "?r < p" using assms(2) by simp
  have bit: "(?q = 0 \<or> ?q = 1) = (?v < 2 ^ 33)"
  proof -
    have "(?q = 0 \<or> ?q = 1) = (?q < 2)" by auto
    also have "\<dots> = (?v < 2 * 2 ^ 32)" by (simp add: div_less_iff_less_mult)
    finally show ?thesis by simp
  qed
  have sum: "(?q * (2 ^ 32 mod p) mod p + ?v mod 2 ^ 32) mod p = ?v"
  proof -
    have "(?q * (2 ^ 32 mod p) mod p + ?v mod 2 ^ 32) mod p = (?q * 2 ^ 32 + ?v mod 2 ^ 32) mod p"
      by (metis mod_add_left_eq mod_mult_right_eq)
    also have "\<dots> = ?v mod p" by simp
    finally show ?thesis using assms(2) by simp
  qed
  show ?thesis
    using assms qp rp r sum bit
    by (simp add: divMod32_def Let_def witnessField_def newField_def andThen_def boolCheck_def
        rangeCheck32_def rangeCheckN_iff assertEquals_def fieldAdd_def fieldMul_def fieldOp_def)
qed

lemma divMod32_constant:
  assumes "isConstant n" and "toBigInt n < p"
  shows "divMod32 p n qb =
    (if toBigInt n < 2 ^ 64
     then Inr \<lparr>remainder = Constant (toBigInt n mod 2 ^ 32), quotient = Constant (toBigInt n div 2 ^ 32)\<rparr>
     else Inl AssertFailed)"
proof -
  let ?v = "toBigInt n"
  let ?q = "?v div 2 ^ 32"
  let ?r = "?v - ?q * 2 ^ 32"
  have r: "?r = ?v mod 2 ^ 32" by (simp add: minus_div_mult_eq_mod)
  have qp: "?q < p" using assms(2) by (meson div_le_dividend le_less_trans)
  have rp: "?r < p" using assms(2) by simp
  show ?thesis
    using assms qp rp r
    by (simp add: divMod32_def Let_def newField_def)
qed

section \<open>\<^verbatim>\<open>divMod32\<close> and \<^verbatim>\<open>addMod32\<close>\<close>

text \<open>
  Claim C8. For every element \<open>n\<close> of the native field with \<open>n < 2^64\<close>,
  \<^verbatim>\<open>divMod32(n)\<close> (with the default \<open>quotientBits = 32\<close>) returns a remainder and a
  quotient with \<open>quotient * 2^32 + remainder = n\<close> and the remainder in
  \<open>[0, 2^32)\<close>, whether \<open>n\<close> is a constant or a variable; on \<open>n = (1 << 32) + 8\<close>
  the remainder is 8 and the quotient is 1.
\<close>

theorem divMod32_decomposes:
  assumes "toBigInt n < p" and "toBigInt n < 2 ^ 64"
  shows "\<exists>d. divMod32 p n 32 = Inr d
      \<and> toBigInt (quotient d) * 2 ^ 32 + toBigInt (remainder d) = toBigInt n
      \<and> toBigInt (remainder d) < 2 ^ 32
      \<and> (toBigInt n = 2 ^ 32 + 8 \<longrightarrow> toBigInt (remainder d) = 8 \<and> toBigInt (quotient d) = 1)"
proof -
  let ?v = "toBigInt n"
  have q: "?v div 2 ^ 32 < 2 ^ 32" using assms(2) by (simp add: div_less_iff_less_mult)
  have ex: "?v = 2 ^ 32 + 8 \<longrightarrow> ?v mod 2 ^ 32 = 8 \<and> ?v div 2 ^ 32 = 1" by simp
  show ?thesis
  proof (cases "isConstant n")
    case True
    then show ?thesis using assms ex divMod32_constant [of n p 32] by simp
  next
    case False
    then show ?thesis using assms q ex divMod32_variable [of n p 32] by simp
  qed
qed

theorem divMod32_decomposes_witness:
  "\<exists>d. divMod32 bn254ScalarOrder (Variable (2 ^ 32 + 8)) 32 = Inr d
      \<and> toBigInt (quotient d) * 2 ^ 32 + toBigInt (remainder d) = 2 ^ 32 + 8
      \<and> toBigInt (remainder d) < 2 ^ 32
      \<and> toBigInt (remainder d) = 8 \<and> toBigInt (quotient d) = 1"
  using divMod32_decomposes [of "Variable (2 ^ 32 + 8)" bn254ScalarOrder]
  by (simp add: bn254ScalarOrder_def)

text \<open>
  Claim C9, as amended. For \<open>x\<close> and \<open>y\<close> in \<open>[0, 2^64)\<close> (and a native field of
  more than 65 bits, so that \<open>x + y\<close> does not wrap): when \<open>x\<close> or \<open>y\<close> is a
  variable, \<^verbatim>\<open>addMod32(x, y)\<close> returns \<open>(x + y) mod 2^32\<close> exactly when
  \<open>x + y < 2^33\<close> and otherwise fails in the boolean check of the quotient; when both
  are constants, \<^verbatim>\<open>divMod32\<close> takes its constant branch, which makes no boolean check,
  and \<^verbatim>\<open>addMod32\<close> returns \<open>(x + y) mod 2^32\<close> for every \<open>x + y < 2^64\<close>, failing
  its 64-bit assertion beyond.
\<close>

theorem addMod32_by_mode:
  assumes "toBigInt x < 2 ^ 64" and "toBigInt y < 2 ^ 64" and "2 ^ 65 \<le> p"
  shows "addMod32 p x y =
    (if isConstant x \<and> isConstant y then
       (if toBigInt x + toBigInt y < 2 ^ 64
        then Inr (Constant ((toBigInt x + toBigInt y) mod 2 ^ 32))
        else Inl AssertFailed)
     else
       (if toBigInt x + toBigInt y < 2 ^ 33
        then Inr (Variable ((toBigInt x + toBigInt y) mod 2 ^ 32))
        else Inl NotBoolean))"
proof -
  let ?s = "toBigInt x + toBigInt y"
  have "?s < 2 ^ 64 + 2 ^ 64" using assms(1,2) by (rule add_strict_mono)
  then have sp: "?s < p" using assms(3) by simp
  then have v: "toBigInt (fieldAdd p x y) = ?s" by (simp add: fieldAdd_def fieldOp_def)
  have c: "isConstant (fieldAdd p x y) = (isConstant x \<and> isConstant y)"
    by (simp add: fieldAdd_def fieldOp_def)
  show ?thesis
  proof (cases "isConstant x \<and> isConstant y")
    case True
    then show ?thesis
      using divMod32_constant [of "fieldAdd p x y" p 1] c v sp by (simp add: addMod32_def)
  next
    case False
    then show ?thesis
      using divMod32_boolean [of "fieldAdd p x y" p] c v sp by (simp add: addMod32_def)
  qed
qed

theorem addMod32_by_mode_witness:
  "addMod32 bn254ScalarOrder (Variable (2 ^ 33)) (Variable 5) = Inl NotBoolean
   \<and> addMod32 bn254ScalarOrder (Variable (2 ^ 32)) (Variable 8) = Inr (Variable 8)"
  using addMod32_by_mode [of "Variable (2 ^ 33)" "Variable 5" bn254ScalarOrder]
    addMod32_by_mode [of "Variable (2 ^ 32)" "Variable 8" bn254ScalarOrder]
  by (simp add: bn254ScalarOrder_def)

text \<open>
  The claim as first stated (failure whenever \<open>x + y \<ge> 2^33\<close>) does not hold for
  constants: \<open>2^33 + 5\<close> is reduced to 5.
\<close>

theorem addMod32_constant_counterexample:
  "addMod32 bn254ScalarOrder (Constant (2 ^ 33)) (Constant 5) = Inr (Constant 5)
   \<and> \<not> toBigInt (Constant (2 ^ 33)) + toBigInt (Constant 5) < 2 ^ 33"
  by (simp add: addMod32_def divMod32_def fieldAdd_def fieldOp_def newField_def
      bn254ScalarOrder_def Let_def)

section \<open>Bytes as digits\<close>

lemma bytesToWordFrom_weightedSum:
  "acc < p \<Longrightarrow>
   bytesToWordFrom p idx acc bs = (acc + 2 ^ (8 * idx) * weightedSum 256 bs) mod p"
proof (induction bs arbitrary: idx acc)
  case Nil
  then show ?case by simp
next
  case (Cons b bs)
  from Cons.prems have p: "0 < p" by simp
  let ?acc = "(acc + (b * (2 ^ (8 * idx) mod p)) mod p) mod p"
  have "?acc < p" using p by simp
  then have "bytesToWordFrom p (Suc idx) ?acc bs
      = (?acc + 2 ^ (8 * Suc idx) * weightedSum 256 bs) mod p"
    by (rule Cons.IH)
  moreover have "(?acc + 2 ^ (8 * Suc idx) * weightedSum 256 bs) mod p
      = (acc + 2 ^ (8 * idx) * (b + 256 * weightedSum 256 bs)) mod p"
  proof -
    have "(?acc + 2 ^ (8 * Suc idx) * weightedSum 256 bs) mod p
        = ((acc + (b * (2 ^ (8 * idx) mod p)) mod p) + 2 ^ (8 * Suc idx) * weightedSum 256 bs) mod p"
      by (simp add: mod_add_left_eq)
    also have "\<dots> = ((acc + 2 ^ (8 * Suc idx) * weightedSum 256 bs) + (b * (2 ^ (8 * idx) mod p)) mod p) mod p"
      by (simp add: ac_simps)
    also have "\<dots> = ((acc + 2 ^ (8 * Suc idx) * weightedSum 256 bs) + b * 2 ^ (8 * idx)) mod p"
      by (metis mod_add_right_eq mod_mult_right_eq)
    also have "\<dots> = (acc + 2 ^ (8 * idx) * (b + 256 * weightedSum 256 bs)) mod p"
      by (simp add: algebra_simps power_add)
    finally show ?thesis .
  qed
  ultimately show ?case by simp
qed

lemma bytesToWord_weightedSum: "0 < p \<Longrightarrow> bytesToWord p bs = weightedSum 256 bs mod p"
  using bytesToWordFrom_weightedSum [of 0 p 0 bs] by (simp add: bytesToWord_def)

lemma weightedSum_bytes:
  "weightedSum 256 (map (\<lambda>k. (w div 2 ^ (8 * k)) mod 256) [0..<n]) = w mod 2 ^ (8 * n)"
  using weightedSum_digits [of 8 w n] by simp

lemma weightedSum_eq_sum: "weightedSum b ds = (\<Sum>i<length ds. ds ! i * b ^ i)"
proof (induction ds)
  case Nil
  show ?case by simp
next
  case (Cons d ds)
  have "(\<Sum>i<Suc (length ds). (d # ds) ! i * b ^ i)
      = (d # ds) ! 0 * b ^ 0 + (\<Sum>i<length ds. (d # ds) ! Suc i * b ^ Suc i)"
    by (rule sum.lessThan_Suc_shift)
  then have "(\<Sum>i<length (d # ds). (d # ds) ! i * b ^ i)
      = d + (\<Sum>i<length ds. ds ! i * b ^ Suc i)"
    by simp
  also have "\<dots> = d + b * (\<Sum>i<length ds. ds ! i * b ^ i)"
    by (simp add: sum_distrib_left ac_simps)
  finally show ?case using Cons.IH by simp
qed

lemma weightedSum_bound:
  "\<forall>d\<in>set ds. d < 2 ^ w \<Longrightarrow> weightedSum (2 ^ w) ds < 2 ^ (w * length ds)"
proof (induction ds)
  case Nil
  show ?case by simp
next
  case (Cons d ds)
  then have d: "d < 2 ^ w" and r: "weightedSum (2 ^ w) ds < 2 ^ (w * length ds)" by simp_all
  from r have "weightedSum (2 ^ w) ds + 1 \<le> 2 ^ (w * length ds)" by simp
  then have "2 ^ w * (weightedSum (2 ^ w) ds + 1) \<le> 2 ^ w * 2 ^ (w * length ds)"
    by (rule mult_le_mono2)
  then have "2 ^ w * weightedSum (2 ^ w) ds + 2 ^ w \<le> 2 ^ (w * Suc (length ds))"
    by (simp add: power_add)
  with d show ?case by simp
qed

lemma digits_weightedSum:
  "\<forall>d\<in>set ds. d < 2 ^ w \<Longrightarrow>
   map (\<lambda>i. (weightedSum (2 ^ w) ds div 2 ^ (w * i)) mod 2 ^ w) [0..<length ds] = ds"
proof (induction ds)
  case Nil
  show ?case by simp
next
  case (Cons d ds)
  then have d: "d < 2 ^ w" by simp
  let ?v = "d + 2 ^ w * weightedSum (2 ^ w) ds"
  have hd: "?v mod 2 ^ w = d" using d by simp
  have tl: "?v div 2 ^ w = weightedSum (2 ^ w) ds" using d by simp
  have shift: "(\<lambda>i. (?v div 2 ^ (w * Suc i)) mod 2 ^ w)
      = (\<lambda>i. (weightedSum (2 ^ w) ds div 2 ^ (w * i)) mod 2 ^ w)"
  proof (rule ext)
    fix i
    have "?v div 2 ^ (w * Suc i) = (?v div 2 ^ w) div 2 ^ (w * i)"
      by (simp add: power_add div_mult2_eq)
    then show "(?v div 2 ^ (w * Suc i)) mod 2 ^ w
        = (weightedSum (2 ^ w) ds div 2 ^ (w * i)) mod 2 ^ w"
      using tl by simp
  qed
  have "map (\<lambda>i. (?v div 2 ^ (w * i)) mod 2 ^ w) [0..<Suc (length ds)]
      = ?v mod 2 ^ w # map (\<lambda>i. (?v div 2 ^ (w * Suc i)) mod 2 ^ w) [0..<length ds]"
    by (simp add: map_upt_Suc_shift del: upt_Suc)
  also have "\<dots> = d # ds" using hd shift Cons by simp
  finally show ?case by simp
qed

section \<open>\<^verbatim>\<open>wordToBytes\<close> and \<^verbatim>\<open>bytesToWord\<close>\<close>

text \<open>
  Claim C10. For every element \<open>word\<close> of the native field and every byte count
  \<open>k\<close>, \<^verbatim>\<open>wordToBytes(word, k)\<close> succeeds exactly when \<open>word < 2^(8k)\<close>. On
  success it returns \<open>k\<close> bytes, each below 256, whose little-endian weighted sum is
  \<open>word\<close>: the base-256 digits of \<open>word\<close>. Otherwise the assertion
  \<^verbatim>\<open>bytesToWord(bytes).assertEquals(word)\<close> fails, the witnessed bytes adding up to
  \<open>word mod 2^(8k)\<close> only.
\<close>

theorem wordToBytes_succeeds_iff:
  assumes "word < p"
  shows "(word < 2 ^ (8 * k) \<longrightarrow>
           (\<exists>bs. wordToBytes p word k = Inr bs \<and> length bs = k \<and> (\<forall>b\<in>set bs. b < 256)
              \<and> (\<Sum>i<k. bs ! i * 256 ^ i) = word))
       \<and> (2 ^ (8 * k) \<le> word \<longrightarrow>
           wordToBytes p word k = Inl AssertEqualsFailed
           \<and> bytesToWord p (map (\<lambda>i. (word div 2 ^ (8 * i)) mod 256) [0..<k]) = word mod 2 ^ (8 * k))"
proof -
  let ?bs = "map (\<lambda>i. (word div 2 ^ (8 * i)) mod 256) [0..<k]"
  from assms have p: "0 < p" by simp
  have rebuilt: "bytesToWord p ?bs = (word mod 2 ^ (8 * k)) mod p"
    by (simp add: bytesToWord_weightedSum [OF p] weightedSum_bytes)
  have iff: "(bytesToWord p ?bs = word) = (word < 2 ^ (8 * k))"
    unfolding rebuilt by (rule wrap_iff [OF assms]) simp
  have sum: "(\<Sum>i<k. ?bs ! i * 256 ^ i) = word mod 2 ^ (8 * k)"
    using weightedSum_eq_sum [of 256 ?bs] weightedSum_bytes [of word k] by simp
  have small: "word mod 2 ^ (8 * k) mod p = word mod 2 ^ (8 * k)"
    using assms by (meson mod_less mod_less_eq_dividend le_less_trans)
  show ?thesis
  proof (intro conjI impI)
    assume lt: "word < 2 ^ (8 * k)"
    then have "wordToBytes p word k = Inr ?bs" using iff by (simp add: wordToBytes_def)
    moreover have "length ?bs = k" by simp
    moreover have "\<forall>b\<in>set ?bs. b < 256" by simp
    moreover have "(\<Sum>i<k. ?bs ! i * 256 ^ i) = word" using sum lt by simp
    ultimately show "\<exists>bs. wordToBytes p word k = Inr bs \<and> length bs = k
        \<and> (\<forall>b\<in>set bs. b < 256) \<and> (\<Sum>i<k. bs ! i * 256 ^ i) = word"
      by blast
  next
    assume "2 ^ (8 * k) \<le> word"
    then show "wordToBytes p word k = Inl AssertEqualsFailed" using iff by (simp add: wordToBytes_def)
  next
    show "bytesToWord p ?bs = word mod 2 ^ (8 * k)" using rebuilt small by simp
  qed
qed

text \<open>
  Claim C7, as amended. For every sequence \<open>B\<close> of bytes (each in \<open>[0, 2^8)\<close>)
  whose little-endian value is below the order \<open>p\<close> of the native field,
  \<^verbatim>\<open>wordToBytes(bytesToWord(B), k)\<close> with \<open>k\<close> the length of \<open>B\<close> succeeds and
  returns \<open>B\<close>; this covers every \<open>B\<close> of \<open>k\<close> bytes when \<open>2^(8k) \<le> p\<close>
  (up to 31 bytes for a 254-bit field).
\<close>

theorem wordToBytes_bytesToWord:
  assumes "\<forall>b\<in>set B. b < 256"
  shows "((\<Sum>i<length B. B ! i * 256 ^ i) < p \<longrightarrow>
            wordToBytes p (bytesToWord p B) (length B) = Inr B)
       \<and> (2 ^ (8 * length B) \<le> p \<longrightarrow>
            wordToBytes p (bytesToWord p B) (length B) = Inr B)"
proof -
  let ?S = "weightedSum 256 B"
  have bytes: "\<forall>b\<in>set B. b < 2 ^ 8" using assms by simp
  have bound: "?S < 2 ^ (8 * length B)" using weightedSum_bound [OF bytes] by simp
  have digits: "map (\<lambda>i. (?S div 2 ^ (8 * i)) mod 256) [0..<length B] = B"
    using digits_weightedSum [OF bytes] by simp
  have main: "wordToBytes p (bytesToWord p B) (length B) = Inr B" if "?S < p"
  proof -
    from that have p: "0 < p" by simp
    have w: "bytesToWord p B = ?S" using that by (simp add: bytesToWord_weightedSum [OF p])
    show ?thesis using digits w by (simp add: wordToBytes_def)
  qed
  show ?thesis using main bound weightedSum_eq_sum [of 256 B] by auto
qed


theorem wordToBytes_succeeds_iff_witness:
  "(\<exists>bs. wordToBytes bn254ScalarOrder 258 2 = Inr bs \<and> length bs = 2 \<and> (\<forall>b\<in>set bs. b < 256)
      \<and> (\<Sum>i<2. bs ! i * 256 ^ i) = 258)
   \<and> wordToBytes bn254ScalarOrder 258 1 = Inl AssertEqualsFailed"
  using wordToBytes_succeeds_iff [of 258 bn254ScalarOrder 2]
    wordToBytes_succeeds_iff [of 258 bn254ScalarOrder 1]
  by (simp add: bn254ScalarOrder_def)

theorem wordToBytes_bytesToWord_witness:
  "wordToBytes bn254ScalarOrder (bytesToWord bn254ScalarOrder [1, 2, 3]) 3 = Inr [1, 2, 3]"
  using wordToBytes_bytesToWord [of "[1, 2, 3]" bn254ScalarOrder]
  by (simp add: bn254ScalarOrder_def numeral_3_eq_3)

lemma upt_32: "[0..<32] = [0, 1, 2, 3, 4, 5, 6, 7, 8, 9, 10, 11, 12, 13, 14, 15, 16, 17, 18, 19,
    20, 21, 22, 23, 24, 25, 26, 27, 28, 29, 30, 31]"
  by (simp add: upt_rec)

text \<open>
  The round trip as first claimed, for every byte sequence, fails for 32 bytes: the sum
  of 32 bytes \<open>0xff\<close> is \<open>2^256 - 1\<close>, which \<^verbatim>\<open>bytesToWord\<close> reduces modulo
  \<open>p\<close>; \<^verbatim>\<open>wordToBytes\<close> succeeds on the reduced word and returns its digits, not
  the bytes it started from.
\<close>

theorem wordToBytes_bytesToWord_counterexample:
  "wordToBytes bn254ScalarOrder (bytesToWord bn254ScalarOrder [255, 255, 255, 255, 255, 255, 255, 255, 255, 255, 255, 255, 255, 255, 255, 255, 255, 255, 255, 255, 255, 255, 255, 255, 255, 255, 255, 255, 255, 255, 255, 255]) 32
     = Inr [250, 255, 255, 79, 28, 52, 150, 172, 41, 205, 96, 159, 149, 118, 252, 54, 46, 70, 121, 120, 111, 163, 110, 102, 47, 223, 7, 154, 193, 119, 10, 14]
   \<and> [250, 255, 255, 79, 28, 52, 150, 172, 41, 205, 96, 159, 149, 118, 252, 54, 46, 70, 121, 120, 111, 163, 110, 102, 47, 223, 7, 154, 193, 119, 10, 14] \<noteq> [255, 255, 255, 255, 255, 255, 255, 255, 255, 255, 255, 255, 255, 255, 255, 255, 255, 255, 255, 255, 255, 255, 255, 255, 255, 255, 255, 255, 255, 255, 255, 255 :: nat]"
proof -
  have p: "0 < bn254ScalarOrder" by (simp add: bn254ScalarOrder_def)
  have w: "bytesToWord bn254ScalarOrder [255, 255, 255, 255, 255, 255, 255, 255, 255, 255, 255, 255, 255, 255, 255, 255, 255, 255, 255, 255, 255, 255, 255, 255, 255, 255, 255, 255, 255, 255, 255, 255] = 6350874878119819312338956282401532410528162663560392320966563075034087161850"
    unfolding bytesToWord_weightedSum [OF p] by (simp add: bn254ScalarOrder_def)
  have d: "map (\<lambda>k. ((6350874878119819312338956282401532410528162663560392320966563075034087161850::nat) div 2 ^ (8 * k)) mod 256) [0..<32] = [250, 255, 255, 79, 28, 52, 150, 172, 41, 205, 96, 159, 149, 118, 252, 54, 46, 70, 121, 120, 111, 163, 110, 102, 47, 223, 7, 154, 193, 119, 10, 14]"
    unfolding upt_32 by simp
  have r: "bytesToWord bn254ScalarOrder [250, 255, 255, 79, 28, 52, 150, 172, 41, 205, 96, 159, 149, 118, 252, 54, 46, 70, 121, 120, 111, 163, 110, 102, 47, 223, 7, 154, 193, 119, 10, 14] = 6350874878119819312338956282401532410528162663560392320966563075034087161850"
    unfolding bytesToWord_weightedSum [OF p] by (simp add: bn254ScalarOrder_def)
  have "wordToBytes bn254ScalarOrder (bytesToWord bn254ScalarOrder [255, 255, 255, 255, 255, 255, 255, 255, 255, 255, 255, 255, 255, 255, 255, 255, 255, 255, 255, 255, 255, 255, 255, 255, 255, 255, 255, 255, 255, 255, 255, 255]) 32
     = Inr [250, 255, 255, 79, 28, 52, 150, 172, 41, 205, 96, 159, 149, 118, 252, 54, 46, 70, 121, 120, 111, 163, 110, 102, 47, 223, 7, 154, 193, 119, 10, 14]"
    unfolding w wordToBytes_def Let_def d r by simp
  then show ?thesis by simp
qed

section \<open>\<^verbatim>\<open>sliceField3\<close>\<close>

lemma bitsToChunk_numeral:
  "bitsToChunk p bits offset j (numeral k) acc =
     (if offset + j < length bits then
        (let bit = bits ! (offset + j)
         in if bit = 0 \<or> bit = 1
            then bitsToChunk p bits offset (Suc j) (pred_numeral k) ((acc + (bit * (2 ^ j mod p)) mod p) mod p)
            else Inl NotBoolean)
      else Inl TypeError)"
  by (simp add: numeral_eq_Suc)

lemma witnessBits_zero: "witnessBits 0 m = replicate m 0"
  by (simp add: witnessBits_def bigIntToBits.simps)

lemma witnessBits_five: "witnessBits 5 88 = [1, 0, 1] @ replicate 85 0"
  by (simp add: witnessBits_def bigIntToBits.simps)

text \<open>
  Claim C6 on the code. The doc comment of \<^verbatim>\<open>sliceField3\<close> says that it serves as a
  range check that the input is in \<open>[0, 2^maxBits)\<close>. With \<open>maxBits \<le> 88\<close> the
  function returns after the first limb (and with \<open>maxBits \<le> 176\<close> after the
  second) and never looks at the limbs above: on the limbs \<open>[0, 0, 1]\<close>, of value
  \<open>2^176\<close>, with \<open>maxBits = 88\<close> and \<open>chunkSize = 8\<close>, it succeeds and returns
  eleven zero chunks. It also can throw on a value that is in range: with
  \<open>maxBits = 89\<close> and \<open>chunkSize = 3\<close> the first call leaves two free bits, the
  second call has a single bit and reads \<^verbatim>\<open>bits[1]\<close>, which is \<^verbatim>\<open>undefined\<close>.
\<close>

theorem sliceField3_skips_high_limbs:
  "sliceField3 bn254ScalarOrder (0, 0, 1) 88 8 = Inr [0, 0, 0, 0, 0, 0, 0, 0, 0, 0, 0]
   \<and> 2 ^ 88 \<le> combine (0, 0, 1)
   \<and> sliceField3 bn254ScalarOrder (5, 0, 0) 89 3 = Inl TypeError
   \<and> combine (5, 0, 0) < 2 ^ 89"
proof -
  have a: "sliceField3 bn254ScalarOrder (0, 0, 1) 88 8 = Inr [0, 0, 0, 0, 0, 0, 0, 0, 0, 0, 0]"
    by (simp add: sliceField3_def sliceField_def witnessBits_zero lBits_def sliceLoop.simps
        bitsToChunk_numeral Let_def)
  have b: "sliceField3 bn254ScalarOrder (5, 0, 0) 89 3 = Inl TypeError"
    by (simp add: sliceField3_def sliceField_def witnessBits_zero witnessBits_five lBits_def
        sliceLoop.simps bitsToChunk_numeral Let_def nth_append bn254ScalarOrder_def)
  show ?thesis using a b by (simp add: combine_def lBits_def)
qed

section \<open>The checks modelled from the spec\<close>





text \<open>
  Claim C5. For every element \<open>xy\<close> of the native field and every \<open>z\<close>: if
  \<open>xy < 2^176\<close> and \<open>z < 2^88\<close> then \<^verbatim>\<open>compactMultiRangeCheck(xy, z)\<close> succeeds and
  returns limbs \<open>a\<close>, \<open>b\<close> (and \<open>z\<close>) with \<open>a + 2^88 b = xy\<close> and \<open>a\<close>,
  \<open>b\<close>, \<open>z\<close> in \<open>[0, 2^88)\<close>; if \<open>xy \<ge> 2^176\<close> or \<open>z \<ge> 2^88\<close> it fails.
\<close>

theorem compactMultiRangeCheck_splits:
  assumes "xy < p"
  shows "(xy < 2 ^ 176 \<and> z < 2 ^ 88 \<longrightarrow>
            (\<exists>a b. compactMultiRangeCheck p xy z = Inr (a, b, z)
               \<and> a + 2 ^ 88 * b = xy \<and> a < 2 ^ 88 \<and> b < 2 ^ 88))
       \<and> (2 ^ 176 \<le> xy \<or> 2 ^ 88 \<le> z \<longrightarrow>
            (\<exists>e. compactMultiRangeCheck p xy z = Inl e))"
proof -
  let ?x = "xy mod 2 ^ 88"
  let ?y = "xy div 2 ^ 88"
  have "(?x + (?y * (2 ^ 88 mod p)) mod p) mod p = (?x + ?y * 2 ^ 88) mod p"
    by (metis mod_add_right_eq mod_mult_right_eq)
  also have "\<dots> = xy" using assms by simp
  finally have packing: "(?x + (?y * (2 ^ 88 mod p)) mod p) mod p = xy" .
  have y: "(?y < 2 ^ 88) = (xy < 2 ^ 176)"
  proof -
    have "(?y < 2 ^ 88) = (xy < 2 ^ 88 * 2 ^ 88)" by (simp add: div_less_iff_less_mult)
    then show ?thesis by simp
  qed
  have x: "?x < 2 ^ 88" by simp
  have split: "?x + 2 ^ 88 * ?y = xy" by simp
  have res: "compactMultiRangeCheck p xy z =
      (if xy < 2 ^ 176 \<and> z < 2 ^ 88 then Inr (?x, ?y, z) else Inl RangeViolation)"
    using packing x y
    by (simp add: compactMultiRangeCheck_def multiRangeCheck_def andThen_def lBits_def Let_def)
  show ?thesis
  proof (intro conjI impI)
    assume "xy < 2 ^ 176 \<and> z < 2 ^ 88"
    then have "compactMultiRangeCheck p xy z = Inr (?x, ?y, z)" using res by simp
    moreover have "?y < 2 ^ 88" using y \<open>xy < 2 ^ 176 \<and> z < 2 ^ 88\<close> by simp
    ultimately show "\<exists>a b. compactMultiRangeCheck p xy z = Inr (a, b, z)
        \<and> a + 2 ^ 88 * b = xy \<and> a < 2 ^ 88 \<and> b < 2 ^ 88"
      using x split by blast
  next
    assume "2 ^ 176 \<le> xy \<or> 2 ^ 88 \<le> z"
    then have "\<not> (xy < 2 ^ 176 \<and> z < 2 ^ 88)" by auto
    then show "\<exists>e. compactMultiRangeCheck p xy z = Inl e" using res by simp
  qed
qed

theorem compactMultiRangeCheck_splits_witness:
  "(\<exists>a b. compactMultiRangeCheck bn254ScalarOrder (7 + 2 ^ 88 * 9) 3 = Inr (a, b, 3)
      \<and> a + 2 ^ 88 * b = 7 + 2 ^ 88 * 9 \<and> a < 2 ^ 88 \<and> b < 2 ^ 88)
   \<and> (\<exists>e. compactMultiRangeCheck bn254ScalarOrder (2 ^ 176) 3 = Inl e)"
  using compactMultiRangeCheck_splits [of "7 + 2 ^ 88 * 9" bn254ScalarOrder 3]
    compactMultiRangeCheck_splits [of "2 ^ 176" bn254ScalarOrder 3]
  by (simp add: bn254ScalarOrder_def)

end
